theory Spec2Isabelle
  imports Main "HOL-Library.Signed_Division"
begin

section \<open>C values: pointers, faults, constants\<close>

text \<open>
  The shell of \<^verbatim>\<open>main.cpp\<close> keeps its data in arrays of \<^verbatim>\<open>char*\<close>. A slot of such
  an array is a pointer that was never assigned (\<open>Garbage\<close>), the null pointer, or a
  pointer to a NUL-terminated string, given by its characters before the NUL.
  Reading through a null or unassigned pointer and indexing an array outside its bounds
  are undefined in C; the model makes each of them a fault and stops there.
\<close>

datatype ptr = Garbage | Null | Str string

datatype fault = NullDeref | WildDeref | OutOfBounds int | IntOverflow

definition MAX_LINE :: nat where
  "MAX_LINE = 80"

definition MAX_HISTORY :: int where
  "MAX_HISTORY = 100"

definition newline :: char where
  "newline = CHR 0x0A"

text \<open>Reading the string behind a pointer, as \<^verbatim>\<open>strcpy\<close>, \<^verbatim>\<open>strdup\<close> and \<^verbatim>\<open>printf("%s")\<close> do.\<close>

definition deref :: "ptr \<Rightarrow> fault + string" where
  "deref p = (case p of Garbage \<Rightarrow> Inl WildDeref | Null \<Rightarrow> Inl NullDeref | Str s \<Rightarrow> Inr s)"

text \<open>Indexing an array of pointers with a C \<^verbatim>\<open>int\<close>.\<close>

definition array_get :: "ptr list \<Rightarrow> int \<Rightarrow> fault + ptr" where
  "array_get a i = (if 0 \<le> i \<and> i < int (length a) then Inr (a ! nat i) else Inl (OutOfBounds i))"

definition array_set :: "ptr list \<Rightarrow> int \<Rightarrow> ptr \<Rightarrow> fault + ptr list" where
  "array_set a i p = (if 0 \<le> i \<and> i < int (length a) then Inr (a[nat i := p]) else Inl (OutOfBounds i))"

section \<open>string_compare\<close>

text \<open>
  \<^verbatim>\<open>string_compare\<close> first walks both strings to their ends to get the two lengths,
  answers false when they differ, and otherwise compares position by position.
\<close>

fun same_chars :: "string \<Rightarrow> string \<Rightarrow> bool" where
  "same_chars (a # as) (b # bs) = (if a \<noteq> b then False else same_chars as bs)"
| "same_chars _ _ = True"

definition string_compare :: "string \<Rightarrow> string \<Rightarrow> bool" where
  "string_compare s1 s2 = (if length s1 \<noteq> length s2 then False else same_chars s1 s2)"

text \<open>The same call when the first argument is a pointer variable that may be null.\<close>

definition string_compare_ptr :: "ptr \<Rightarrow> string \<Rightarrow> fault + bool" where
  "string_compare_ptr p s2 = (case deref p of Inl f \<Rightarrow> Inl f | Inr s1 \<Rightarrow> Inr (string_compare s1 s2))"

section \<open>parse_input\<close>

text \<open>
  \<^verbatim>\<open>strtok\<close> with the delimiters \<^verbatim>\<open>" \n"\<close>: each call skips the delimiters in front,
  returns NULL at the end of the string, and otherwise returns the characters up to the
  next delimiter. \<open>strtok_all\<close> is the list of tokens that the successive calls return
  before the NULL.
\<close>

definition is_delim :: "char \<Rightarrow> bool" where
  "is_delim c = (c = CHR '' '' \<or> c = newline)"

function strtok_all :: "string \<Rightarrow> string list" where
  "strtok_all s =
     (let t = dropWhile is_delim s
      in if t = [] then []
         else takeWhile (\<lambda>c. \<not> is_delim c) t # strtok_all (dropWhile (\<lambda>c. \<not> is_delim c) t))"
  by pat_completeness auto

lemma length_dropWhile_le_aux: "length (dropWhile P xs) \<le> length xs"
  by (induction xs) auto

lemma dropWhile_not_shorter:
  assumes "dropWhile P s \<noteq> []"
  shows "length (dropWhile (\<lambda>c. \<not> P c) (dropWhile P s)) < length s"
proof -
  obtain c cs where t: "dropWhile P s = c # cs"
    using assms by (cases "dropWhile P s") auto
  have "\<not> P c"
    using t by (metis hd_dropWhile list.sel(1) list.distinct(1))
  then have "dropWhile (\<lambda>c. \<not> P c) (c # cs) = dropWhile (\<lambda>c. \<not> P c) cs"
    by simp
  moreover have "length (dropWhile (\<lambda>c. \<not> P c) cs) \<le> length cs"
    by (rule length_dropWhile_le_aux)
  moreover have "length (c # cs) \<le> length s"
    using t length_dropWhile_le_aux [of P s] by simp
  ultimately show ?thesis
    using t by simp
qed

termination strtok_all
  by (relation "measure length") (auto simp: dropWhile_not_shorter)

declare strtok_all.simps [simp del]

text \<open>
  The loop of \<^verbatim>\<open>parse_input\<close> over the tokens after the first, with the index \<open>k\<close>
  of the slot of \<^verbatim>\<open>args\<close> that the next \<^verbatim>\<open>strtok\<close> result is stored in. A token equal
  to \<^verbatim>\<open>&\<close> clears the wait flag, is blanked, and \<open>k\<close> stays, so the next result (a token
  or the final NULL) overwrites the slot.
\<close>

fun parse_loop :: "ptr list \<Rightarrow> int \<Rightarrow> string list \<Rightarrow> bool \<Rightarrow> fault + (ptr list \<times> bool)" where
  "parse_loop args k [] shouldWait =
     (case array_set args k Null of Inl f \<Rightarrow> Inl f | Inr args' \<Rightarrow> Inr (args', shouldWait))"
| "parse_loop args k (t # ts) shouldWait =
     (case array_set args k (Str t) of
        Inl f \<Rightarrow> Inl f
      | Inr args' \<Rightarrow>
          if string_compare t ''&''
          then (case array_set args' k (Str '' '') of
                  Inl f \<Rightarrow> Inl f
                | Inr args'' \<Rightarrow> parse_loop args'' k ts False)
          else parse_loop args' (k + 1) ts shouldWait)"

definition parse_input :: "string \<Rightarrow> ptr list \<Rightarrow> bool \<Rightarrow> fault + (ptr list \<times> bool)" where
  "parse_input input args shouldWait =
     (case strtok_all input of
        [] \<Rightarrow> (case array_set args 0 Null of Inl f \<Rightarrow> Inl f | Inr args' \<Rightarrow> Inr (args', shouldWait))
      | t # ts \<Rightarrow>
          (case array_set args 0 (Str t) of
             Inl f \<Rightarrow> Inl f
           | Inr args' \<Rightarrow> parse_loop args' 1 ts shouldWait))"

text \<open>
  What \<^verbatim>\<open>execvp\<close> reads from \<^verbatim>\<open>args\<close>: the strings before the first null pointer.
\<close>

fun argv_of :: "ptr list \<Rightarrow> fault + string list" where
  "argv_of [] = Inl (OutOfBounds 0)"
| "argv_of (Null # ps) = Inr []"
| "argv_of (Garbage # ps) = Inl WildDeref"
| "argv_of (Str s # ps) = (case argv_of ps of Inl f \<Rightarrow> Inl f | Inr ss \<Rightarrow> Inr (s # ss))"

section \<open>atoi and printf("%d")\<close>

text \<open>
  \<^verbatim>\<open>atoi\<close> skips leading white space, reads an optional sign and then the decimal
  digits up to the first character that is not one; with no digit the value is 0.
  \<open>atoi\<close> is the mathematical value; \<open>atoi_int\<close> is the call that stores it in an
  \<^verbatim>\<open>int\<close>, which C leaves undefined when the value does not fit.
\<close>

definition INT_MAX :: int where
  "INT_MAX = 2147483647"

definition INT_MIN :: int where
  "INT_MIN = - 2147483648"

definition isspace_c :: "char \<Rightarrow> bool" where
  "isspace_c c = (c \<in> set [CHR '' '', CHR 0x09, CHR 0x0A, CHR 0x0B, CHR 0x0C, CHR 0x0D])"

definition digit_of :: "char \<Rightarrow> int option" where
  "digit_of c = map_of
     [(CHR ''0'', 0), (CHR ''1'', 1), (CHR ''2'', 2), (CHR ''3'', 3), (CHR ''4'', 4),
      (CHR ''5'', 5), (CHR ''6'', 6), (CHR ''7'', 7), (CHR ''8'', 8), (CHR ''9'', 9)] c"

fun digits_value :: "int \<Rightarrow> string \<Rightarrow> int" where
  "digits_value acc [] = acc"
| "digits_value acc (c # cs) =
     (case digit_of c of None \<Rightarrow> acc | Some d \<Rightarrow> digits_value (acc * 10 + d) cs)"

definition atoi :: "string \<Rightarrow> int" where
  "atoi s =
     (case dropWhile isspace_c s of
        [] \<Rightarrow> 0
      | c # cs \<Rightarrow>
          if c = CHR ''-'' then - digits_value 0 cs
          else if c = CHR ''+'' then digits_value 0 cs
          else digits_value 0 (c # cs))"

definition atoi_int :: "string \<Rightarrow> fault + int" where
  "atoi_int s = (let v = atoi s in if INT_MIN \<le> v \<and> v \<le> INT_MAX then Inr v else Inl IntOverflow)"

text \<open>The decimal digits that \<^verbatim>\<open>%d\<close> prints.\<close>

definition digit_char :: "nat \<Rightarrow> char" where
  "digit_char d = ''0123456789'' ! d"

function dec_nat :: "nat \<Rightarrow> string" where
  "dec_nat n = (if n < 10 then [digit_char n] else dec_nat (n div 10) @ [digit_char (n mod 10)])"
  by pat_completeness auto

termination dec_nat
  by (relation "measure id") auto

declare dec_nat.simps [simp del]

definition show_int :: "int \<Rightarrow> string" where
  "show_int i = (if i < 0 then CHR ''-'' # dec_nat (nat (- i)) else dec_nat (nat i))"

section \<open>The interpreter's variables, its output and the operating system\<close>

text \<open>
  The variables of \<^verbatim>\<open>main\<close> that live across iterations of its loop. The line buffer
  \<^verbatim>\<open>input\<close> is filled anew by \<^verbatim>\<open>getline\<close> in every iteration and is passed as the line.
\<close>

record shell =
  args :: "ptr list"
  history :: "ptr list"
  history_count :: int
  should_run :: int
  should_wait :: bool
  need_fork :: bool

definition init :: shell where
  "init = \<lparr> args = replicate (MAX_LINE div 2 + 1) Garbage,
            history = replicate (nat MAX_HISTORY) Garbage,
            history_count = - 1,
            should_run = 1,
            should_wait = True,
            need_fork = True \<rparr>"

text \<open>
  What a process does that can be seen from outside: text written to standard output,
  and the calls \<^verbatim>\<open>fork\<close>, \<^verbatim>\<open>execvp\<close> (with the argument array) and \<^verbatim>\<open>wait\<close> (until the
  child with the given id is reported).
\<close>

datatype event = Print string | Fork | Execvp "ptr list" | Wait int

text \<open>
  What the operating system answers during one call of \<^verbatim>\<open>execute\<close>: the value
  \<^verbatim>\<open>fork\<close> returns in the process that is followed, and, for the child, the value
  \<^verbatim>\<open>execvp\<close> returns (\<open>None\<close> when the program image is replaced and the call never
  returns).
\<close>

record os_reply =
  fork_result :: int
  execvp_result :: "int option"

text \<open>How a call leaves the process: it returns, the process exits, or its image is replaced.\<close>

datatype control = Returns | Exits int | Replaced

section \<open>execute\<close>

text \<open>C's logical negation of an \<^verbatim>\<open>int\<close>.\<close>

definition c_not :: "int \<Rightarrow> int" where
  "c_not x = (if x = 0 then 1 else 0)"

definition execute :: "ptr list \<Rightarrow> bool \<Rightarrow> os_reply \<Rightarrow> event list \<times> control" where
  "execute cmd waiting os =
     (let child = fork_result os
      in if child < 0 then ([Fork, Print (''Fork failed!'' @ [newline, newline])], Exits 1)
         else if child = 0 then
           (case execvp_result os of
              None \<Rightarrow> ([Fork, Execvp cmd], Replaced)
            | Some r \<Rightarrow>
                if c_not r < 0
                then ([Fork, Execvp cmd, Print (''Error executing command!'' @ [newline])], Returns)
                else ([Fork, Execvp cmd], Returns))
         else if waiting then ([Fork, Wait child], Returns)
         else ([Fork], Returns))"

section \<open>print_history\<close>

function print_loop :: "ptr list \<Rightarrow> int \<Rightarrow> int \<Rightarrow> fault + event list" where
  "print_loop hist count hc =
     (if hc > - 1 \<and> count > 0
      then (case array_get hist hc of
              Inl f \<Rightarrow> Inl f
            | Inr p \<Rightarrow>
                (case deref p of
                   Inl f \<Rightarrow> Inl f
                 | Inr s \<Rightarrow>
                     (case print_loop hist (count - 1) (hc - 1) of
                        Inl f \<Rightarrow> Inl f
                      | Inr evs \<Rightarrow> Inr (Print (show_int (hc + 1) @ '' '' @ s @ [newline]) # evs))))
      else Inr [])"
  by pat_completeness auto

termination print_loop
  by (relation "measure (\<lambda>(hist, count, hc). nat count)") auto

declare print_loop.simps [simp del]

definition print_history :: "ptr list \<Rightarrow> int \<Rightarrow> fault + event list" where
  "print_history hist hc =
     (case print_loop hist 10 hc of
        Inl f \<Rightarrow> Inl f
      | Inr evs \<Rightarrow> Inr (Print (''Command history:'' @ [newline]) # evs))"

section \<open>The loop body of main\<close>

text \<open>
  \<^verbatim>\<open>strcpy(input, history[i]); printf("%s\n", input)\<close>: the slot is read, the string
  behind it is copied into the line buffer of \<open>MAX_LINE\<close> characters and echoed.
\<close>

definition fetch :: "shell \<Rightarrow> int \<Rightarrow> fault + (event list \<times> ptr \<times> shell)" where
  "fetch st i =
     (case array_get (history st) i of
        Inl f \<Rightarrow> Inl f
      | Inr p \<Rightarrow>
          (case deref p of
             Inl f \<Rightarrow> Inl f
           | Inr s \<Rightarrow>
               if length s < MAX_LINE then Inr ([Print (s @ [newline])], Str s, st)
               else Inl (OutOfBounds (int MAX_LINE))))"

text \<open>
  The number after \<^verbatim>\<open>!\<close>: \<open>num\<close> starts at 0, and only when a character follows the
  \<^verbatim>\<open>!\<close> it becomes \<^verbatim>\<open>atoi(&input[1])\<close> and is decremented.
\<close>

definition recall_index :: "string \<Rightarrow> fault + int" where
  "recall_index input =
     (if tl input \<noteq> []
      then (case atoi_int (tl input) of
              Inl f \<Rightarrow> Inl f
            | Inr num \<Rightarrow> if num = INT_MIN then Inl IntOverflow else Inr (num - 1))
      else Inr 0)"

text \<open>
  The special commands \<^verbatim>\<open>!!\<close> and \<^verbatim>\<open>!n\<close>. The result is the output, the line
  variable afterwards (the assignment \<^verbatim>\<open>input = NULL\<close> of the failing \<^verbatim>\<open>!n\<close> branch makes
  it the null pointer) and the variables of \<^verbatim>\<open>main\<close>.
\<close>

definition recall :: "shell \<Rightarrow> string \<Rightarrow> fault + (event list \<times> ptr \<times> shell)" where
  "recall st input =
     (if string_compare input ''!!'' then
        (if history_count st \<noteq> - 1 then fetch st (history_count st)
         else Inr ([Print (''No commands in history!'' @ [newline])], Str input,
                   st\<lparr>need_fork := False\<rparr>))
      else if (case input of [] \<Rightarrow> False | c # cs \<Rightarrow> c = CHR ''!'') then
        (case recall_index input of
           Inl f \<Rightarrow> Inl f
         | Inr num \<Rightarrow>
             if num \<le> history_count st \<and> num > - 1 then fetch st num
             else Inr ([Print (''There is no command numbered '' @ show_int (num + 1)
                               @ '' in the history.'' @ [newline])], Null, st))
      else Inr ([], Str input, st))"

text \<open>The \<^verbatim>\<open>history\<close> built-in, or else \<^verbatim>\<open>parse_input\<close>.\<close>

definition history_or_parse :: "shell \<Rightarrow> ptr \<Rightarrow> fault + (event list \<times> shell)" where
  "history_or_parse st input =
     (case string_compare_ptr input ''history'' of
        Inl f \<Rightarrow> Inl f
      | Inr is_history \<Rightarrow>
          if is_history then
            (if history_count st = - 1
             then Inr ([Print (''No commands in history!'' @ [newline])], st)
             else (case print_history (history st) (history_count st) of
                     Inl f \<Rightarrow> Inl f
                   | Inr evs \<Rightarrow> Inr (evs, st\<lparr>need_fork := False\<rparr>)))
          else
            (case deref input of
               Inl f \<Rightarrow> Inl f
             | Inr s \<Rightarrow>
                 (case parse_input s (args st) (should_wait st) of
                    Inl f \<Rightarrow> Inl f
                  | Inr (args', wait') \<Rightarrow> Inr ([], st\<lparr>args := args', should_wait := wait'\<rparr>))))"

text \<open>
  Adding the line to the history: the counter is reset when it has reached
  \<open>MAX_HISTORY\<close>, then incremented, and its remainder by \<open>MAX_HISTORY\<close> is the slot
  that receives \<^verbatim>\<open>strdup(input)\<close>.
\<close>

definition add_history :: "shell \<Rightarrow> ptr \<Rightarrow> fault + shell" where
  "add_history st input =
     (let hc = (if history_count st \<ge> MAX_HISTORY then - 1 else history_count st);
          hc' = hc + 1
      in case deref input of
           Inl f \<Rightarrow> Inl f
         | Inr s \<Rightarrow>
             (case array_set (history st) (hc' smod MAX_HISTORY) (Str s) of
                Inl f \<Rightarrow> Inl f
              | Inr h \<Rightarrow> Inr (st\<lparr>history := h, history_count := hc'\<rparr>)))"

definition prompt :: event where
  "prompt = Print ''dsh>''"

text \<open>
  One iteration of the \<^verbatim>\<open>while\<close> loop on the line that \<^verbatim>\<open>getline\<close> delivered.
\<close>

definition iteration :: "os_reply \<Rightarrow> shell \<Rightarrow> string \<Rightarrow> fault + (event list \<times> control \<times> shell)" where
  "iteration os st input =
     (if length input = 0 then Inr ([prompt], Returns, st)
      else if string_compare input ''exit'' then Inr ([prompt], Returns, st\<lparr>should_run := 0\<rparr>)
      else
        (case recall (st\<lparr>need_fork := True, should_wait := True\<rparr>) input of
           Inl f \<Rightarrow> Inl f
         | Inr (ev1, line, st1) \<Rightarrow>
             (case history_or_parse st1 line of
                Inl f \<Rightarrow> Inl f
              | Inr (ev2, st2) \<Rightarrow>
                  (case add_history st2 line of
                     Inl f \<Rightarrow> Inl f
                   | Inr st3 \<Rightarrow>
                       if need_fork st3
                       then (case execute (args st3) (should_wait st3) os of
                               (ev3, c) \<Rightarrow> Inr (prompt # ev1 @ ev2 @ ev3, c, st3))
                       else Inr (prompt # ev1 @ ev2, Returns, st3)))))"

text \<open>
  The loop of \<^verbatim>\<open>main\<close> on the lines of standard input, each with the answers of the
  operating system for that iteration. It ends when \<open>should_run\<close> is 0 (\<^verbatim>\<open>main\<close> returns
  0), when the process leaves the loop in \<^verbatim>\<open>execute\<close>, or with a fault; when the given
  lines are used up, the result is the output so far and the variables of the process,
  which waits for its next line.
\<close>

fun main_loop :: "(os_reply \<times> string) list \<Rightarrow> shell \<Rightarrow> fault + (event list \<times> control \<times> shell)" where
  "main_loop [] st = Inr ([], Returns, st)"
| "main_loop ((os, input) # rest) st =
     (if should_run st = 0 then Inr ([], Exits 0, st)
      else (case iteration os st input of
              Inl f \<Rightarrow> Inl f
            | Inr (evs, c, st') \<Rightarrow>
                if c = Returns
                then (case main_loop rest st' of
                        Inl f \<Rightarrow> Inl f
                      | Inr (evs', c', st'') \<Rightarrow> Inr (evs @ evs', c', st''))
                else Inr (evs, c, st')))"

section \<open>Notions used in the statements\<close>

text \<open>The tokens that are left when every token equal to \<^verbatim>\<open>&\<close> is taken out.\<close>

definition strip_amp :: "string list \<Rightarrow> string list" where
  "strip_amp ts = filter (\<lambda>t. t \<noteq> ''&'') ts"

text \<open>
  The answers of the operating system seen by the interpreter itself: \<^verbatim>\<open>fork\<close> succeeds and
  returns the child's id, here 1.
\<close>

definition parent :: os_reply where
  "parent = \<lparr> fork_result = 1, execvp_result = None \<rparr>"

text \<open>
  A slot that holds a line of the line buffer's size, and the state of the history that
  the loop keeps up: the arrays have their declared sizes, the counter is between -1 and
  \<open>MAX_HISTORY\<close>, and the slots up to the counter hold lines.
\<close>

definition is_line :: "ptr \<Rightarrow> bool" where
  "is_line p = (case p of Str s \<Rightarrow> length s < MAX_LINE | Null \<Rightarrow> False | Garbage \<Rightarrow> False)"

definition history_ok :: "shell \<Rightarrow> bool" where
  "history_ok st =
     (length (history st) = nat MAX_HISTORY \<and> length (args st) = MAX_LINE div 2 + 1
      \<and> - 1 \<le> history_count st \<and> history_count st \<le> MAX_HISTORY
      \<and> list_all is_line (take (nat (history_count st + 1)) (history st)))"

text \<open>The string behind a slot that holds one.\<close>

definition text_of :: "ptr \<Rightarrow> string" where
  "text_of p = (case p of Str s \<Rightarrow> s | Null \<Rightarrow> [] | Garbage \<Rightarrow> [])"

text \<open>Twelve one-letter command lines, for a history longer than one listing.\<close>

definition twelve :: "string list" where
  "twelve = [''a'', ''b'', ''c'', ''d'', ''e'', ''f'', ''g'', ''h'', ''i'', ''j'', ''k'', ''l'']"

section \<open>Facts about the string functions and the tokenizer\<close>

lemma string_compare_eq: "string_compare s1 s2 = (s1 = s2)"
proof -
  have "length s1 = length s2 \<Longrightarrow> same_chars s1 s2 = (s1 = s2)"
    by (induction s1 s2 rule: same_chars.induct) auto
  then show ?thesis
    by (auto simp: string_compare_def)
qed

lemma argv_of_prefix: "argv_of (map Str ss @ Null # rest) = Inr ss"
  by (induction ss) auto

lemma argv_of_take:
  assumes "take n av = map Str ss @ [Null]"
  shows "argv_of av = Inr ss"
proof -
  have "av = (map Str ss @ [Null]) @ drop n av"
    using assms by (metis append_take_drop_id)
  then have "av = map Str ss @ Null # drop n av"
    by simp
  then show ?thesis
    by (metis argv_of_prefix)
qed

lemma parse_loop_result:
  assumes "0 \<le> k" and "k + int (length ts) < int (length av)"
    and "take (nat k) av = map Str pre"
  shows "\<exists>args'. parse_loop av k ts w = Inr (args', w \<and> ''&'' \<notin> set ts)
           \<and> length args' = length av
           \<and> take (nat k + length (strip_amp ts) + 1) args' = map Str (pre @ strip_amp ts) @ [Null]"
  using assms
proof (induction ts arbitrary: av k w pre)
  case Nil
  then show ?case
    by (simp add: array_set_def strip_amp_def take_Suc_conv_app_nth)
next
  case (Cons t ts)
  have inb: "0 \<le> k \<and> k < int (length av)"
    using Cons.prems by simp
  show ?case
  proof (cases "t = ''&''")
    case True
    let ?a = "av[nat k := Str t, nat k := Str '' '']"
    have pl: "parse_loop av k (t # ts) w = parse_loop ?a k ts False"
      using inb True by (simp add: array_set_def string_compare_eq)
    have "take (nat k) ?a = map Str pre"
      using Cons.prems by simp
    moreover have "k + int (length ts) < int (length ?a)"
      using Cons.prems by simp
    ultimately obtain args' where
      "parse_loop ?a k ts False = Inr (args', False \<and> ''&'' \<notin> set ts)"
      "length args' = length ?a"
      "take (nat k + length (strip_amp ts) + 1) args' = map Str (pre @ strip_amp ts) @ [Null]"
      using Cons.IH [of k ?a pre False] Cons.prems(1) by blast
    then show ?thesis
      using pl True by (simp add: strip_amp_def)
  next
    case False
    let ?a = "av[nat k := Str t]"
    have pl: "parse_loop av k (t # ts) w = parse_loop ?a (k + 1) ts w"
      using inb False by (simp add: array_set_def string_compare_eq)
    have "take (nat (k + 1)) ?a = map Str (pre @ [t])"
      using Cons.prems inb by (simp add: nat_add_distrib take_Suc_conv_app_nth)
    moreover have "(k + 1) + int (length ts) < int (length ?a)"
      using Cons.prems by simp
    ultimately obtain args' where
      "parse_loop ?a (k + 1) ts w = Inr (args', w \<and> ''&'' \<notin> set ts)"
      "length args' = length ?a"
      "take (nat (k + 1) + length (strip_amp ts) + 1) args' = map Str ((pre @ [t]) @ strip_amp ts) @ [Null]"
      using Cons.IH [of "k + 1" ?a "pre @ [t]" w] Cons.prems(1) by force
    then show ?thesis
      using pl False inb by (auto simp: strip_amp_def nat_add_distrib)
  qed
qed

lemma strtok_all_count: "2 * length (strtok_all s) \<le> length (dropWhile is_delim s) + 1"
proof (induction s rule: strtok_all.induct)
  case (1 s)
  let ?t = "dropWhile is_delim s"
  show ?case
  proof (cases "?t = []")
    case True
    then show ?thesis by (simp add: strtok_all.simps [of s])
  next
    case False
    let ?tok = "takeWhile (\<lambda>c. \<not> is_delim c) ?t"
    let ?r = "dropWhile (\<lambda>c. \<not> is_delim c) ?t"
    have st: "strtok_all s = ?tok # strtok_all ?r"
      using False by (simp add: strtok_all.simps [of s] Let_def)
    have ih: "2 * length (strtok_all ?r) \<le> length (dropWhile is_delim ?r) + 1"
      using "1.IH" [OF refl False] .
    have hd: "\<not> is_delim (hd ?t)"
      using False by (metis hd_dropWhile)
    then have tok: "1 \<le> length ?tok"
      using False by (cases ?t) auto
    have split: "length ?t = length ?tok + length ?r"
      by (metis length_append takeWhile_dropWhile_id)
    show ?thesis
    proof (cases ?r)
      case Nil
      have "strtok_all [] = []"
        by (simp add: strtok_all.simps [of "[]"])
      then have "strtok_all ?r = []"
        by (simp only: Nil)
      then show ?thesis
        using st tok split by simp
    next
      case (Cons c cs)
      then have "is_delim c"
        by (metis hd_dropWhile list.sel(1) list.distinct(1))
      then have "dropWhile is_delim ?r = dropWhile is_delim cs"
        using Cons by simp
      then have "length (dropWhile is_delim ?r) + 1 \<le> length ?r"
        using Cons length_dropWhile_le_aux [of is_delim cs] by simp
      then show ?thesis
        using st ih tok split by simp
    qed
  qed
qed


lemma strtok_all_tokens: "t \<in> set (strtok_all s) \<Longrightarrow> t \<noteq> [] \<and> (\<forall>c \<in> set t. \<not> is_delim c)"
proof (induction s rule: strtok_all.induct)
  case (1 s)
  let ?t = "dropWhile is_delim s"
  show ?case
  proof (cases "?t = []")
    case True
    then show ?thesis using "1.prems" by (simp add: strtok_all.simps [of s])
  next
    case False
    let ?tok = "takeWhile (\<lambda>c. \<not> is_delim c) ?t"
    let ?r = "dropWhile (\<lambda>c. \<not> is_delim c) ?t"
    have st: "strtok_all s = ?tok # strtok_all ?r"
      using False by (simp add: strtok_all.simps [of s] Let_def)
    have "\<not> is_delim (hd ?t)"
      using False by (metis hd_dropWhile)
    then have ne: "?tok \<noteq> []"
      using False by (cases ?t) auto
    have nd: "\<forall>c \<in> set ?tok. \<not> is_delim c"
      using set_takeWhileD by fastforce
    from "1.prems" st have "t = ?tok \<or> t \<in> set (strtok_all ?r)"
      by simp
    then show ?thesis
    proof
      assume eq: "t = ?tok"
      show ?thesis unfolding eq using ne nd by (rule conjI)
    next
      assume "t \<in> set (strtok_all ?r)"
      then show ?thesis by (rule "1.IH" [OF refl False])
    qed
  qed
qed

lemma filter_dropWhile_delim:
  "filter (\<lambda>c. \<not> P c) (dropWhile P s) = filter (\<lambda>c. \<not> P c) s"
  by (induction s) auto

lemma filter_takeWhile_same: "filter Q (takeWhile Q s) = takeWhile Q s"
  by (induction s) auto

lemma strtok_all_concat: "concat (strtok_all s) = filter (\<lambda>c. \<not> is_delim c) s"
proof (induction s rule: strtok_all.induct)
  case (1 s)
  let ?N = "\<lambda>c. \<not> is_delim c"
  let ?t = "dropWhile is_delim s"
  have fs: "filter ?N s = filter ?N ?t"
    by (simp only: filter_dropWhile_delim)
  show ?case
  proof (cases "?t = []")
    case True
    then show ?thesis using fs by (simp add: strtok_all.simps [of s])
  next
    case False
    let ?tok = "takeWhile ?N ?t"
    let ?r = "dropWhile ?N ?t"
    have st: "strtok_all s = ?tok # strtok_all ?r"
      using False by (simp add: strtok_all.simps [of s] Let_def)
    have ih: "concat (strtok_all ?r) = filter ?N ?r"
      by (rule "1.IH" [OF refl False])
    have "filter ?N ?t = filter ?N (?tok @ ?r)"
      by (simp only: takeWhile_dropWhile_id)
    also have "\<dots> = ?tok @ filter ?N ?r"
      by (simp only: filter_append filter_takeWhile_same)
    finally have "filter ?N ?t = ?tok @ concat (strtok_all ?r)"
      by (simp only: ih)
    then show ?thesis
      by (simp only: st fs concat.simps)
  qed
qed

text \<open>
  The tokens of a line, piece by piece: a delimiter in front is skipped; a non-empty run
  of other characters up to a delimiter is the first token, and the rest of the line gives
  the rest of the tokens; such a run up to the end of the line is the last token.
\<close>

lemma strtok_all_empty: "strtok_all [] = []"
  by (simp add: strtok_all.simps [of "[]"])

lemma strtok_all_delim: "is_delim d \<Longrightarrow> strtok_all (d # s) = strtok_all s"
  by (simp add: strtok_all.simps [of "d # s"] strtok_all.simps [of s])

lemma strtok_all_word_delim:
  assumes "t \<noteq> []" and "\<forall>c \<in> set t. \<not> is_delim c" and "is_delim d"
  shows "strtok_all (t @ d # s) = t # strtok_all s"
proof -
  obtain c cs where t: "t = c # cs"
    using assms(1) by (cases t) auto
  have "\<not> is_delim c"
    using assms(2) t by simp
  then have d1: "dropWhile is_delim (t @ d # s) = t @ d # s"
    using t by simp
  have d2: "takeWhile (\<lambda>c. \<not> is_delim c) (t @ d # s) = t"
    using assms(2,3) by (simp add: takeWhile_append2)
  have d3: "dropWhile (\<lambda>c. \<not> is_delim c) (t @ d # s) = d # s"
    using assms(2,3) by (simp add: dropWhile_append2)
  have "strtok_all (t @ d # s)
          = (if t @ d # s = [] then []
             else takeWhile (\<lambda>c. \<not> is_delim c) (t @ d # s)
                  # strtok_all (dropWhile (\<lambda>c. \<not> is_delim c) (t @ d # s)))"
    by (subst strtok_all.simps) (simp only: Let_def d1)
  then have "strtok_all (t @ d # s) = t # strtok_all (d # s)"
    by (simp only: d2 d3) simp
  then show ?thesis
    using assms(3) by (simp add: strtok_all_delim)
qed

lemma strtok_all_word:
  assumes "t \<noteq> []" and "\<forall>c \<in> set t. \<not> is_delim c"
  shows "strtok_all t = [t]"
proof -
  obtain c cs where t: "t = c # cs"
    using assms(1) by (cases t) auto
  have "\<not> is_delim c"
    using assms(2) t by simp
  then have d1: "dropWhile is_delim t = t"
    using t by simp
  have d2: "takeWhile (\<lambda>c. \<not> is_delim c) t = t"
    using assms(2) by simp
  have d3: "dropWhile (\<lambda>c. \<not> is_delim c) t = []"
    using assms(2) by simp
  have "strtok_all t
          = (if t = [] then []
             else takeWhile (\<lambda>c. \<not> is_delim c) t
                  # strtok_all (dropWhile (\<lambda>c. \<not> is_delim c) t))"
    by (subst strtok_all.simps) (simp only: Let_def d1)
  then show ?thesis
    using assms(1) by (simp only: d2 d3 strtok_all_empty) simp
qed

lemma parse_input_result:
  assumes "length input < MAX_LINE" and "length av = MAX_LINE div 2 + 1"
  shows "\<exists>args'. parse_input input av w = Inr (args', w \<and> ''&'' \<notin> set (tl (strtok_all input)))
           \<and> length args' = length av
           \<and> argv_of args' = Inr (case strtok_all input of [] \<Rightarrow> [] | t # ts \<Rightarrow> t # strip_amp ts)"
proof (cases "strtok_all input")
  case Nil
  have "argv_of (av[0 := Null]) = Inr []"
    using assms(2) by (cases av) (auto simp: MAX_LINE_def)
  then show ?thesis
    using Nil assms(2) by (simp add: parse_input_def array_set_def MAX_LINE_def)
next
  case (Cons t ts)
  let ?a = "av[0 := Str t]"
  have "2 * length (strtok_all input) \<le> length input + 1"
    using strtok_all_count [of input] length_dropWhile_le_aux [of is_delim input] by linarith
  then have n: "length ts < 39 + 1"
    using Cons assms(1) by (simp add: MAX_LINE_def)
  have pi: "parse_input input av w = parse_loop ?a 1 ts w"
    using Cons assms(2) by (simp add: parse_input_def array_set_def MAX_LINE_def)
  have "take (nat 1) ?a = map Str [t]"
    using assms(2) by (cases av) (auto simp: MAX_LINE_def)
  moreover have "1 + int (length ts) < int (length ?a)"
    using n assms(2) by (simp add: MAX_LINE_def)
  ultimately obtain args' where r:
    "parse_loop ?a 1 ts w = Inr (args', w \<and> ''&'' \<notin> set ts)"
    "length args' = length ?a"
    "take (nat 1 + length (strip_amp ts) + 1) args' = map Str ([t] @ strip_amp ts) @ [Null]"
    using parse_loop_result [of 1 ts ?a "[t]" w] by auto
  have "argv_of args' = Inr ([t] @ strip_amp ts)"
    using r(3) by (rule argv_of_take)
  then show ?thesis
    using pi r Cons by simp
qed


lemma strtok_all_example_cmd: "strtok_all ''cmd &'' = [''cmd'', ''&'']"
  by code_simp

lemma strtok_all_example_echo: "strtok_all ''echo a  b'' = [''echo'', ''a'', ''b'']"
  by code_simp

section \<open>The tokenizer and the background marker\<close>

text \<open>
  What \<^verbatim>\<open>parse_input\<close> computes for a line that fits the line buffer: the tokens of the
  line are stored in \<^verbatim>\<open>args\<close> in order, followed by a null pointer, without the tokens
  after the first that are exactly \<^verbatim>\<open>&\<close>; the wait flag is cleared when there is such a
  token. The loop makes no difference between a \<^verbatim>\<open>&\<close> at the end of the line and one
  before further tokens.
\<close>

lemma parse_input_argv:
  assumes "length input < MAX_LINE" and "length av = MAX_LINE div 2 + 1"
  shows "\<exists>args'. parse_input input av True
                     = Inr (args', ''&'' \<notin> set (tl (strtok_all input)))
              \<and> argv_of args'
                     = Inr (case strtok_all input of [] \<Rightarrow> [] | t # ts \<Rightarrow> t # strip_amp ts)"
proof -
  obtain args' where
    "parse_input input av True = Inr (args', True \<and> ''&'' \<notin> set (tl (strtok_all input)))"
    "argv_of args' = Inr (case strtok_all input of [] \<Rightarrow> [] | t # ts \<Rightarrow> t # strip_amp ts)"
    using parse_input_result [OF assms, of True] by blast
  then show ?thesis
    by simp
qed

text \<open>
  The lines that the comments of the source describe come out as they say: \<^verbatim>\<open>cmd &\<close>
  gives the argument vector \<^verbatim>\<open>cmd\<close> with the wait flag cleared, and \<^verbatim>\<open>echo a  b\<close> gives
  \<^verbatim>\<open>echo\<close>, \<^verbatim>\<open>a\<close>, \<^verbatim>\<open>b\<close> with the flag set.
\<close>

lemma parse_input_marker_at_end:
  "(\<exists>args'. parse_input ''cmd &'' (args init) True = Inr (args', False)
             \<and> argv_of args' = Inr [''cmd''])
   \<and> (\<exists>args'. parse_input ''echo a  b'' (args init) True = Inr (args', True)
             \<and> argv_of args' = Inr [''echo'', ''a'', ''b''])"
proof -
  have len: "length (args init) = MAX_LINE div 2 + 1"
    by (simp add: init_def)
  have "\<exists>args'. parse_input ''cmd &'' (args init) True = Inr (args', False)
             \<and> argv_of args' = Inr [''cmd'']"
    using parse_input_argv [of "''cmd &''" "args init"] len
    by (simp add: MAX_LINE_def strtok_all_example_cmd strip_amp_def)
  moreover have "\<exists>args'. parse_input ''echo a  b'' (args init) True = Inr (args', True)
             \<and> argv_of args' = Inr [''echo'', ''a'', ''b'']"
    using parse_input_argv [of "''echo a  b''" "args init"] len
    by (simp add: MAX_LINE_def strtok_all_example_echo strip_amp_def)
  ultimately show ?thesis
    by (rule conjI)
qed

text \<open>
  The first token is stored before the loop and is never compared with \<^verbatim>\<open>&\<close>: the line
  \<^verbatim>\<open>&\<close> keeps it as the command and leaves the wait flag set.
\<close>

lemma parse_input_marker_first:
  "(case parse_input ''&'' (args init) True of
      Inl f \<Rightarrow> False
    | Inr (args', wait) \<Rightarrow> argv_of args' = Inr [''&''] \<and> wait = True)"
  by code_simp

text \<open>
  Claim C4, on the code: in the line \<^verbatim>\<open>a & b\<close> the marker is not the final token, yet
  \<^verbatim>\<open>parse_input\<close> clears the wait flag and the slot of the marker receives the next token
  \<^verbatim>\<open>b\<close>, not the null pointer: the argument vector is \<^verbatim>\<open>a\<close>, \<^verbatim>\<open>b\<close>. The interpreter
  then forks and does not wait for the child.
\<close>

theorem parse_input_marker_in_middle:
  "(case parse_input ''a & b'' (args init) True of
      Inl f \<Rightarrow> False
    | Inr (args', wait) \<Rightarrow> argv_of args' = Inr [''a'', ''b''] \<and> wait = False)
   \<and> (case iteration parent init ''a & b'' of
      Inl f \<Rightarrow> False
    | Inr (evs, c, st) \<Rightarrow> evs = [prompt, Fork] \<and> should_wait st = False)"
  by code_simp

section \<open>The history listing\<close>

lemma print_loop_lines:
  assumes "hc < int (length hist)"
    and "\<forall>i. 0 \<le> i \<and> i \<le> hc \<longrightarrow> hist ! nat i = Str (text i)"
  shows "print_loop hist count hc
           = Inr (map (\<lambda>i. Print (show_int (i + 1) @ '' '' @ text i @ [newline]))
                      (rev [max 0 (hc - count + 1) .. hc]))"
  using assms
proof (induction hist count hc rule: print_loop.induct)
  case (1 hist count hc)
  show ?case
  proof (cases "hc > - 1 \<and> count > 0")
    case False
    then have "[max 0 (hc - count + 1) .. hc] = []"
      by auto
    moreover have "print_loop hist count hc = Inr []"
      by (subst print_loop.simps) (simp only: False if_False)
    ultimately show ?thesis
      by simp
  next
    case True
    have get: "array_get hist hc = Inr (Str (text hc))"
      using True "1.prems" by (simp add: array_get_def)
    have ih: "print_loop hist (count - 1) (hc - 1)
                = Inr (map (\<lambda>i. Print (show_int (i + 1) @ '' '' @ text i @ [newline]))
                           (rev [max 0 (hc - 1 - (count - 1) + 1) .. hc - 1]))"
      using "1.IH" [OF True get, of "text hc"] "1.prems" by (simp add: deref_def)
    have "max 0 (hc - count + 1) \<le> hc"
      using True by simp
    then have "[max 0 (hc - count + 1) .. hc] = [max 0 (hc - count + 1) .. hc - 1] @ [hc]"
      by (rule upto_rec2)
    then show ?thesis
      using True get ih by (simp add: print_loop.simps [of hist count hc] deref_def)
  qed
qed


text \<open>
  Claim C9. With \<open>N = hc + 1\<close> entries, \<open>1 \<le> N\<close>, stored in the slots \<open>0\<close> to \<open>hc\<close>
  of the history array, \<^verbatim>\<open>print_history\<close> prints the header and then, for the indices
  from \<open>hc\<close> down to \<open>max 0 (hc - 9)\<close>, the line made of the index plus one, a space
  and the entry's text: \<open>min 10 N\<close> lines, the most recent first.
\<close>

theorem print_history_listing:
  assumes "0 \<le> hc" and "hc < int (length hist)"
    and "\<forall>i. 0 \<le> i \<and> i \<le> hc \<longrightarrow> hist ! nat i = Str (text i)"
  shows "print_history hist hc
           = Inr (Print (''Command history:'' @ [newline])
                  # map (\<lambda>i. Print (show_int (i + 1) @ '' '' @ text i @ [newline]))
                        (rev [max 0 (hc - 9) .. hc]))
         \<and> length (rev [max 0 (hc - 9) .. hc]) = nat (min 10 (hc + 1))"
proof -
  have "print_loop hist 10 hc
          = Inr (map (\<lambda>i. Print (show_int (i + 1) @ '' '' @ text i @ [newline]))
                     (rev [max 0 (hc - 10 + 1) .. hc]))"
    using assms(2,3) by (rule print_loop_lines)
  then show ?thesis
    using assms(1) by (simp add: print_history_def)
qed

text \<open>A history of twelve entries: the listing shows the entries 12 down to 3.\<close>

theorem print_history_listing_witness:
  "print_history (map Str twelve) 11
     = Inr (map Print
         [''Command history:'' @ [newline],
          ''12 l'' @ [newline], ''11 k'' @ [newline], ''10 j'' @ [newline], ''9 i'' @ [newline],
          ''8 h'' @ [newline], ''7 g'' @ [newline], ''6 f'' @ [newline], ''5 e'' @ [newline],
          ''4 d'' @ [newline], ''3 c'' @ [newline]])"
proof -
  have h1: "(0::int) \<le> 11"
    by simp
  have len: "length twelve = 12"
    by (simp add: twelve_def)
  have h2: "11 < int (length (map Str twelve))"
    using len by simp
  have h3: "\<forall>i. 0 \<le> i \<and> i \<le> 11 \<longrightarrow> map Str twelve ! nat i = Str (twelve ! nat i)"
  proof (intro allI impI)
    fix i :: int
    assume "0 \<le> i \<and> i \<le> 11"
    then have "nat i < length twelve"
      using len by linarith
    then show "map Str twelve ! nat i = Str (twelve ! nat i)"
      by (rule nth_map)
  qed
  show ?thesis
    using print_history_listing [OF h1 h2 h3]
    by (simp add: twelve_def show_int_def digit_char_def
        dec_nat.simps [of 12] dec_nat.simps [of 11] dec_nat.simps [of 10] dec_nat.simps [of 9]
        dec_nat.simps [of 8] dec_nat.simps [of 7] dec_nat.simps [of 6] dec_nat.simps [of 5]
        dec_nat.simps [of 4] dec_nat.simps [of 3] dec_nat.simps [of "Suc 0"])
qed

section \<open>Adding to the history\<close>

text \<open>
  One step of the history counter. Below \<open>MAX_HISTORY\<close> the counter is incremented and
  the line goes to the slot given by the new counter modulo \<open>MAX_HISTORY\<close>; so from 99
  the counter becomes 100 and the line goes to slot 0. Only from \<open>MAX_HISTORY\<close> on is the
  counter reset.
\<close>

lemma add_history_counts:
  assumes "length (history st) = nat MAX_HISTORY"
    and "- 1 \<le> history_count st" and "history_count st < MAX_HISTORY"
  shows "add_history st (Str s)
           = Inr (st\<lparr>history := (history st)[nat ((history_count st + 1) mod MAX_HISTORY) := Str s],
                     history_count := history_count st + 1\<rparr>)"
proof -
  have "(history_count st + 1) smod MAX_HISTORY = (history_count st + 1) mod MAX_HISTORY"
    using assms(2) by (simp add: smod_int_alt_def MAX_HISTORY_def sgn_if)
  moreover have "0 \<le> (history_count st + 1) mod MAX_HISTORY"
    "(history_count st + 1) mod MAX_HISTORY < MAX_HISTORY"
    by (simp_all add: MAX_HISTORY_def)
  ultimately show ?thesis
    using assms by (simp add: add_history_def deref_def array_set_def Let_def)
qed

lemma add_history_resets:
  assumes "length (history st) = nat MAX_HISTORY" and "history_count st \<ge> MAX_HISTORY"
  shows "add_history st (Str s)
           = Inr (st\<lparr>history := (history st)[0 := Str s], history_count := 0\<rparr>)"
  using assms by (simp add: add_history_def deref_def array_set_def MAX_HISTORY_def)

section \<open>What the loop keeps up\<close>

text \<open>
  From the initial state, on lines that fit the line buffer, every state that the loop
  reaches has the history in the state described by \<open>history_ok\<close>. The counter can
  be \<open>MAX_HISTORY\<close> itself; below that, the slots 0 to the counter hold strings. Adding
  to the history never writes outside the array.
\<close>

lemma parse_loop_length:
  "parse_loop av k ts w = Inr (av', w') \<Longrightarrow> length av' = length av"
proof (induction ts arbitrary: av k w)
  case Nil
  then show ?case
    by (auto simp: array_set_def split: if_splits)
next
  case (Cons t ts)
  show ?case
  proof (cases "string_compare t ''&''")
    case True
    then have "parse_loop (av[nat k := Str t, nat k := Str '' '']) k ts False = Inr (av', w')"
      using Cons.prems by (auto simp: array_set_def split: if_splits)
    then show ?thesis
      using Cons.IH by fastforce
  next
    case False
    then have "parse_loop (av[nat k := Str t]) (k + 1) ts w = Inr (av', w')"
      using Cons.prems by (auto simp: array_set_def split: if_splits)
    then show ?thesis
      using Cons.IH by fastforce
  qed
qed

lemma parse_input_length:
  assumes "parse_input input av w = Inr (av', w')"
  shows "length av' = length av"
proof (cases "strtok_all input")
  case Nil
  then show ?thesis
    using assms by (auto simp: parse_input_def array_set_def split: if_splits)
next
  case (Cons t ts)
  then have "parse_loop (av[0 := Str t]) 1 ts w = Inr (av', w')"
    using assms by (auto simp: parse_input_def array_set_def split: if_splits)
  then show ?thesis
    using parse_loop_length by fastforce
qed

lemma fetch_line:
  assumes "fetch st i = Inr (evs, p, st')"
  shows "is_line p \<and> st' = st"
  using assms
  by (auto simp: fetch_def is_line_def split: sum.splits if_splits)

lemma recall_line:
  assumes "recall st input = Inr (evs, p, st')" and "length input < MAX_LINE"
  shows "(p = Null \<or> is_line p) \<and> history st' = history st
         \<and> history_count st' = history_count st \<and> args st' = args st"
proof -
  have "is_line (Str input)"
    using assms(2) by (simp add: is_line_def)
  then show ?thesis
    using assms(1)
    by (auto simp: recall_def split: if_splits sum.splits dest: fetch_line)
qed

lemma history_or_parse_keeps:
  assumes "history_or_parse st p = Inr (evs, st')"
  shows "p \<noteq> Null \<and> history st' = history st \<and> history_count st' = history_count st
         \<and> length (args st') = length (args st)"
  using assms
  by (auto simp: history_or_parse_def string_compare_ptr_def deref_def
      split: sum.splits if_splits ptr.splits dest: parse_input_length)

lemma list_all_update: "list_all P xs \<Longrightarrow> P x \<Longrightarrow> list_all P (xs[i := x])"
  by (induction xs arbitrary: i) (auto split: nat.splits)

lemma add_history_ok:
  assumes "history_ok st" and "is_line p" and "add_history st p = Inr st'"
  shows "history_ok st'"
proof -
  obtain s where p: "p = Str s"
    using assms(2) by (cases p) (auto simp: is_line_def)
  let ?h = "history st" and ?c = "history_count st"
  have len: "length ?h = 100" and lo: "- 1 \<le> ?c" and hi: "?c \<le> 100"
    and lines: "list_all is_line (take (nat (?c + 1)) ?h)"
    and alen: "length (args st) = MAX_LINE div 2 + 1"
    using assms(1) by (simp_all add: history_ok_def MAX_HISTORY_def)
  consider "?c = 100" | "?c = 99" | "?c < 99"
    using hi by linarith
  then show ?thesis
  proof cases
    case 1
    then have "st' = st\<lparr>history := ?h[0 := Str s], history_count := 0\<rparr>"
      using assms(3) p len add_history_resets [of st s] by (simp add: MAX_HISTORY_def)
    moreover have "take (Suc 0) (?h[0 := Str s]) = [Str s]"
      using len by (cases ?h) auto
    ultimately show ?thesis
      using len alen assms(2) p by (simp add: history_ok_def MAX_HISTORY_def)
  next
    case 2
    then have st': "st' = st\<lparr>history := ?h[0 := Str s], history_count := 100\<rparr>"
      using assms(3) p len add_history_counts [of st s] by (simp add: MAX_HISTORY_def)
    have "list_all is_line ?h"
      using lines 2 len by simp
    then have "list_all is_line (?h[0 := Str s])"
      using assms(2) p by (simp add: list_all_update)
    then show ?thesis
      using st' len alen by (simp add: history_ok_def MAX_HISTORY_def)
  next
    case 3
    then have m: "(?c + 1) mod 100 = ?c + 1"
      using lo by simp
    have st': "st' = st\<lparr>history := ?h[nat (?c + 1) := Str s], history_count := ?c + 1\<rparr>"
      using assms(3) p len lo 3 add_history_counts [of st s] m by (simp add: MAX_HISTORY_def)
    define n where "n = nat (?c + 1)"
    have sn: "nat (?c + 1 + 1) = Suc n"
      using lo by (simp add: n_def)
    have "n < length ?h"
      using 3 len by (simp add: n_def)
    then have "take (Suc n) (?h[n := Str s]) = take n ?h @ [Str s]"
      by (simp add: take_Suc_conv_app_nth)
    then have "list_all is_line (take (nat (?c + 1 + 1)) (?h[nat (?c + 1) := Str s]))"
      using lines assms(2) p sn by (simp add: n_def)
    then show ?thesis
      using st' len alen lo 3 by (simp add: history_ok_def MAX_HISTORY_def)
  qed
qed

lemma iteration_ok:
  assumes "history_ok st" and "length input < MAX_LINE"
    and "iteration os st input = Inr (evs, c, st')"
  shows "history_ok st'"
proof (cases "length input = 0 \<or> string_compare input ''exit''")
  case True
  then have "st' = st \<or> st' = st\<lparr>should_run := 0\<rparr>"
    using assms(3) by (auto simp: iteration_def split: if_splits)
  then show ?thesis
    using assms(1) by (auto simp: history_ok_def)
next
  case False
  let ?st0 = "st\<lparr>need_fork := True, should_wait := True\<rparr>"
  obtain ev1 line st1 where r: "recall ?st0 input = Inr (ev1, line, st1)"
    using assms(3) False by (auto simp: iteration_def split: sum.splits)
  obtain ev2 st2 where h: "history_or_parse st1 line = Inr (ev2, st2)"
    using assms(3) False r by (auto simp: iteration_def split: sum.splits)
  obtain st3 where a: "add_history st2 line = Inr st3"
    using assms(3) False r h by (auto simp: iteration_def split: sum.splits)
  have st3: "st' = st3"
    using assms(3) False r h a by (auto simp: iteration_def split: if_splits prod.splits)
  have "is_line line"
    using recall_line [OF r assms(2)] history_or_parse_keeps [OF h] by blast
  moreover have "history_ok st2"
    using assms(1) recall_line [OF r assms(2)] history_or_parse_keeps [OF h]
    by (simp add: history_ok_def)
  ultimately show ?thesis
    using a st3 add_history_ok by blast
qed

lemma main_loop_ok:
  assumes "history_ok st" and "\<forall>(os, input) \<in> set script. length input < MAX_LINE"
    and "main_loop script st = Inr (evs, c, st')"
  shows "history_ok st'"
  using assms
proof (induction script arbitrary: st evs c st')
  case Nil
  then show ?case by simp
next
  case (Cons x script)
  obtain os input where x: "x = (os, input)"
    by (cases x)
  show ?case
  proof (cases "should_run st = 0")
    case True
    then show ?thesis
      using Cons.prems x by simp
  next
    case False
    obtain e1 c1 st1 where it: "iteration os st input = Inr (e1, c1, st1)"
      using Cons.prems(3) x False by (auto split: sum.splits)
    have ok1: "history_ok st1"
      using Cons.prems(1,2) x it iteration_ok by fastforce
    show ?thesis
    proof (cases "c1 = Returns")
      case True
      then obtain e2 where "main_loop script st1 = Inr (e2, c, st')"
        using Cons.prems(3) x False it by (auto split: sum.splits)
      then show ?thesis
        using Cons.IH [OF ok1] Cons.prems(2) by fastforce
    next
      case False
      then have "st' = st1"
        using Cons.prems(3) x \<open>should_run st \<noteq> 0\<close> it by simp
      then show ?thesis
        using ok1 by simp
    qed
  qed
qed

lemma init_ok: "history_ok init"
  by (simp add: history_ok_def init_def MAX_HISTORY_def MAX_LINE_def)

lemma history_ok_entries:
  assumes "history_ok st" and "history_count st < MAX_HISTORY"
  shows "history_count st < int (length (history st))
         \<and> (\<forall>i. 0 \<le> i \<and> i \<le> history_count st
                \<longrightarrow> history st ! nat i = Str (text_of (history st ! nat i)))"
proof (intro conjI allI impI)
  show "history_count st < int (length (history st))"
    using assms by (simp add: history_ok_def MAX_HISTORY_def)
next
  fix i :: int
  assume i: "0 \<le> i \<and> i \<le> history_count st"
  let ?n = "nat (history_count st + 1)"
  have "nat i < ?n" and "?n \<le> length (history st)"
    using i assms by (simp_all add: history_ok_def MAX_HISTORY_def)
  moreover have "list_all is_line (take ?n (history st))"
    using assms(1) by (simp add: history_ok_def)
  ultimately have "is_line (history st ! nat i)"
    by (metis length_take list_all_length min.absorb2 nth_take)
  then show "history st ! nat i = Str (text_of (history st ! nat i))"
    by (cases "history st ! nat i") (simp_all add: is_line_def text_of_def)
qed

lemma add_history_in_bounds:
  assumes "history_ok st"
  shows "add_history st p \<noteq> Inl (OutOfBounds i)"
proof (cases p)
  case (Str s)
  have "length (history st) = nat MAX_HISTORY" and "- 1 \<le> history_count st"
    using assms by (simp_all add: history_ok_def)
  then show ?thesis
    using Str add_history_counts [of st s] add_history_resets [of st s]
    by (cases "history_count st < MAX_HISTORY") auto
qed (simp_all add: add_history_def deref_def Let_def)

section \<open>The history store at its capacity\<close>

text \<open>
  Claim C1, on the code: after exactly 100 command lines the counter is 99. The next
  line, \<^verbatim>\<open>pwd\<close>, is stored in slot 0, but the counter becomes 100, so the new entry is
  number 101 and not number 1, and \<^verbatim>\<open>!100\<close> still finds the entry numbered 100. The
  numbering restarts one line later: the line after that is stored in slot 0 again, with
  the counter 0.
\<close>

theorem append_after_capacity:
  "(case main_loop (replicate 100 (parent, ''ls'')) init of
      Inl f \<Rightarrow> False
    | Inr (evs, c, st100) \<Rightarrow>
        history_count st100 = 99 \<and>
        (case iteration parent st100 ''pwd'' of
           Inl f \<Rightarrow> False
         | Inr (evs', c', st101) \<Rightarrow>
             history_count st101 = 100 \<and> history st101 ! 0 = Str ''pwd'' \<and>
             (case recall st101 ''!100'' of
                Inl f \<Rightarrow> False
              | Inr (ev, line, st) \<Rightarrow> ev = [Print (''ls'' @ [newline])] \<and> line = Str ''ls'') \<and>
             (case iteration parent st101 ''cd'' of
                Inl f \<Rightarrow> False
              | Inr (evs'', c'', st102) \<Rightarrow>
                  history_count st102 = 0 \<and> history st102 ! 0 = Str ''cd'')))"
  by code_simp

text \<open>
  Claim C10, on the code: after 101 command lines the counter is 100, and the next
  \<^verbatim>\<open>!!\<close> or \<^verbatim>\<open>history\<close> reads slot 100 of the history array, which has the slots 0
  to 99.
\<close>

theorem recall_after_capacity_out_of_bounds:
  "main_loop (replicate 101 (parent, ''ls'') @ [(parent, ''!!'')]) init = Inl (OutOfBounds 100)
   \<and> main_loop (replicate 101 (parent, ''ls'') @ [(parent, ''history'')]) init = Inl (OutOfBounds 100)"
  by code_simp

section \<open>A recall that fails\<close>

text \<open>
  Every line that starts with \<^verbatim>\<open>!\<close>, is not \<^verbatim>\<open>!!\<close>, and whose index is not one of
  0 to the counter ends the iteration in the fault of reading through the null pointer.
\<close>

lemma failed_recall_faults:
  assumes "input = CHR ''!'' # rest" and "input \<noteq> ''!!''"
    and "recall_index input = Inr num"
    and "\<not> (num \<le> history_count st \<and> num > - 1)"
  shows "iteration os st input = Inl NullDeref"
  using assms
  by (auto simp: iteration_def string_compare_eq recall_def history_or_parse_def
      string_compare_ptr_def deref_def)

text \<open>
  Claim C2, on the code: for \<^verbatim>\<open>!5\<close> with an empty history the message is printed, but
  \<open>need_fork\<close> is still true after the recall branch and the line variable is the null
  pointer; the iteration then ends in the fault of \<^verbatim>\<open>string_compare\<close> reading through it.
\<close>

theorem failed_recall_keeps_need_fork:
  "(case recall (init\<lparr>need_fork := True, should_wait := True\<rparr>) ''!5'' of
      Inl f \<Rightarrow> False
    | Inr (evs, line, st) \<Rightarrow>
        evs = [Print (''There is no command numbered 5 in the history.'' @ [newline])]
        \<and> line = Null \<and> need_fork st = True)
   \<and> iteration parent init ''!5'' = Inl NullDeref"
  by code_simp

text \<open>
  Claim C7, on the code: with two entries in the history, the line \<^verbatim>\<open>!3\<close> ends the
  run in that same fault, before the step that adds to the history is reached; and that
  step, \<^verbatim>\<open>strdup(input)\<close>, faults itself on the null pointer. No entry \<^verbatim>\<open>!3\<close> is recorded.
\<close>

theorem failed_recall_not_recorded:
  "main_loop [(parent, ''ls''), (parent, ''pwd''), (parent, ''!3'')] init = Inl NullDeref
   \<and> add_history st Null = Inl NullDeref"
  by (simp add: add_history_def deref_def) code_simp

section \<open>Recall on an empty history\<close>

lemma strtok_all_bang_bang: "strtok_all ''!!'' = [''!!'']"
  by code_simp

text \<open>
  Claim C3, as the code has it. When the history is empty, the line \<^verbatim>\<open>!!\<close> prints
  the message and nothing else, \<open>need_fork\<close> is false and \<^verbatim>\<open>execute\<close> is not called
  (the output has no \<open>Fork\<close>); the line itself is parsed into \<^verbatim>\<open>args\<close> and is added to
  the history as its first entry, in slot 0, the counter becoming 0.
\<close>

theorem bang_bang_on_empty_history:
  assumes "history_count st = - 1"
    and "length (history st) = nat MAX_HISTORY"
    and "length (args st) = MAX_LINE div 2 + 1"
  shows "iteration os st ''!!''
           = Inr ([prompt, Print (''No commands in history!'' @ [newline])], Returns,
                  st\<lparr>args := (args st)[0 := Str ''!!'', 1 := Null],
                     history := (history st)[0 := Str ''!!''],
                     history_count := 0,
                     should_wait := True,
                     need_fork := False\<rparr>)"
proof -
  have "args st \<noteq> []"
    using assms(3) by auto
  then show ?thesis
    using assms
    by (simp add: iteration_def string_compare_eq recall_def history_or_parse_def
      string_compare_ptr_def deref_def parse_input_def strtok_all_bang_bang array_set_def
      add_history_def MAX_HISTORY_def MAX_LINE_def smod_int_alt_def)
qed

text \<open>The initial state of the interpreter has an empty history.\<close>

theorem bang_bang_on_empty_history_witness:
  "history_count init = - 1
   \<and> iteration parent init ''!!''
       = Inr ([prompt, Print (''No commands in history!'' @ [newline])], Returns,
              init\<lparr>args := (args init)[0 := Str ''!!'', 1 := Null],
                   history := (history init)[0 := Str ''!!''],
                   history_count := 0,
                   should_wait := True,
                   need_fork := False\<rparr>)"
  using bang_bang_on_empty_history [of init parent]
  by (simp add: init_def MAX_HISTORY_def MAX_LINE_def)

text \<open>
  Against claim C3 as stated: after \<^verbatim>\<open>!!\<close> on the initial, empty history the counter
  and the array have changed.
\<close>

theorem bang_bang_empty_counterexample:
  "(case iteration parent init ''!!'' of
      Inl f \<Rightarrow> False
    | Inr (evs, c, st) \<Rightarrow>
        history_count st = 0 \<and> history st ! 0 = Str ''!!''
        \<and> history_count st \<noteq> history_count init \<and> history st \<noteq> history init)"
  by code_simp

section \<open>The bare exclamation mark\<close>

text \<open>
  Claim C8, as the code has it. For the line \<^verbatim>\<open>!\<close> the index stays 0 and is not
  decremented, so the line stands for the entry in slot 0, which is shown as number 1.
  Whenever the history has an entry, the line resolves to the string in slot 0, which is
  echoed; only with an empty history does it fail, and the message names the number 1.
\<close>

theorem bare_bang_recall:
  "(0 \<le> history_count st \<longrightarrow> history st \<noteq> [] \<longrightarrow> history st ! 0 = Str s \<longrightarrow> length s < MAX_LINE \<longrightarrow>
      recall st ''!'' = Inr ([Print (s @ [newline])], Str s, st))
   \<and> (history_count st < 0 \<longrightarrow>
      recall st ''!'' = Inr ([Print (''There is no command numbered 1 in the history.'' @ [newline])], Null, st))"
  by (simp add: recall_def string_compare_eq recall_index_def fetch_def array_get_def deref_def
      show_int_def dec_nat.simps [of "Suc 0"] digit_char_def)

text \<open>A history holding the one entry \<^verbatim>\<open>ls\<close>, and the empty history.\<close>

theorem bare_bang_recall_witness:
  "recall (init\<lparr>history := (history init)[0 := Str ''ls''], history_count := 0\<rparr>) ''!''
     = Inr ([Print (''ls'' @ [newline])], Str ''ls'',
            init\<lparr>history := (history init)[0 := Str ''ls''], history_count := 0\<rparr>)
   \<and> recall init ''!''
     = Inr ([Print (''There is no command numbered 1 in the history.'' @ [newline])], Null, init)"
  using bare_bang_recall [of "init\<lparr>history := (history init)[0 := Str ''ls''], history_count := 0\<rparr>" "''ls''"]
    bare_bang_recall [of init]
  by (simp add: init_def MAX_HISTORY_def MAX_LINE_def)

text \<open>
  Against claim C8 as stated: after the command \<^verbatim>\<open>ls\<close>, the line \<^verbatim>\<open>!\<close> echoes
  \<^verbatim>\<open>ls\<close>, runs it again and records it as the second entry.
\<close>

theorem bare_bang_counterexample:
  "(case main_loop [(parent, ''ls''), (parent, ''!'')] init of
      Inl f \<Rightarrow> False
    | Inr (evs, c, st) \<Rightarrow>
        evs = [prompt, Fork, Wait 1, prompt, Print (''ls'' @ [newline]), Fork, Wait 1]
        \<and> argv_of (args st) = Inr [''ls''] \<and> history st ! 1 = Str ''ls'')"
  by code_simp

section \<open>The child process\<close>

text \<open>The condition \<^verbatim>\<open>!execvp(...) < 0\<close> never holds, so the message is never printed.\<close>

lemma execute_never_reports: "Print (''Error executing command!'' @ [newline]) \<notin> set (fst (execute cmd waiting os))"
  by (simp add: execute_def c_not_def Let_def split: option.splits)

text \<open>
  Claim C5, on the code: in the child (\<^verbatim>\<open>fork\<close> returned 0), when \<^verbatim>\<open>execvp\<close> fails and
  returns -1, nothing is printed, and \<^verbatim>\<open>execute\<close> returns to the loop of \<^verbatim>\<open>main\<close>: the
  child does not exit.
\<close>

theorem exec_failure_prints_nothing:
  "execute cmd waiting \<lparr> fork_result = 0, execvp_result = Some (- 1) \<rparr> = ([Fork, Execvp cmd], Returns)"
  by (simp add: execute_def c_not_def)

section \<open>The history built-in on an empty history\<close>

text \<open>
  Claim C6, on the code: for the line \<^verbatim>\<open>history\<close> with an empty history the message
  is printed, \<open>need_fork\<close> stays true, and \<^verbatim>\<open>execute\<close> is called, with the \<^verbatim>\<open>args\<close>
  array that no command has filled yet.
\<close>

theorem history_on_empty_store_forks:
  "(case iteration parent init ''history'' of
      Inl f \<Rightarrow> False
    | Inr (evs, c, st) \<Rightarrow>
        evs = [prompt, Print (''No commands in history!'' @ [newline]), Fork, Wait 1]
        \<and> need_fork st = True \<and> args st = args init)"
  by code_simp

end
